theory Spec2Isabelle
  imports Main "HOL-Library.Multiset" "HOL-Library.Char_ord" "HOL-Library.List_Lexorder"
    "HOL-Library.Word"
begin

text \<open>
  A shallow embedding of \<^verbatim>\<open>pkg/server/auth.go\<close>: the request authorization
  \<^verbatim>\<open>authRequest\<close> of the certificate server and its helper
  \<^verbatim>\<open>identitiesMatch\<close>. A Go string is a byte sequence and \<^verbatim>\<open><\<close> on strings
  compares bytewise; this is the lexicographic order on \<^typ>\<open>string\<close> over the order
  of \<^typ>\<open>char\<close> by byte value.
\<close>

section \<open>Go runtime and standard library\<close>

text \<open>The two run-time panics that indexing a slice and calling a method through a
  pointer can raise.\<close>

datatype panic = IndexOutOfRange | NilDereference

text \<open>
  \<^verbatim>\<open>sort.SliceStable(x, less)\<close> sorts by the strict order \<^verbatim>\<open>less\<close> and keeps
  equal elements in their original order. It is modelled by stable insertion: an
  element moves right only past elements strictly smaller than it.
\<close>

fun insertStable :: "('a \<Rightarrow> 'a \<Rightarrow> bool) \<Rightarrow> 'a \<Rightarrow> 'a list \<Rightarrow> 'a list" where
  "insertStable lt x [] = [x]"
| "insertStable lt x (y # ys) =
     (if lt y x then y # insertStable lt x ys else x # y # ys)"

definition sort_SliceStable :: "('a \<Rightarrow> 'a \<Rightarrow> bool) \<Rightarrow> 'a list \<Rightarrow> 'a list" where
  "sort_SliceStable lt xs = foldr (insertStable lt) xs []"

text \<open>\<^verbatim>\<open>sort.Strings(x)\<close> sorts in increasing order; its comparison is
  \<^verbatim>\<open>x[i] < x[j]\<close>.\<close>

definition sort_Strings :: "string list \<Rightarrow> string list" where
  "sort_Strings x = sort_SliceStable (\<lambda>s t. s < t) x"

text \<open>\<^verbatim>\<open>strings.Join(elems, sep)\<close>.\<close>

fun strings_Join :: "string list \<Rightarrow> string \<Rightarrow> string" where
  "strings_Join [] sep = ''''"
| "strings_Join [x] sep = x"
| "strings_Join (x # y # ys) sep = x @ sep @ strings_Join (y # ys) sep"

text \<open>A Go \<^verbatim>\<open>error\<close> is represented by its message; a \<^verbatim>\<open>nil\<close> error is
  \<^const>\<open>None\<close>. \<^verbatim>\<open>errors.Join\<close> returns \<^verbatim>\<open>nil\<close> when it is given no error and
  otherwise an error whose message joins the messages with newlines.\<close>

type_synonym error = string

definition errors_Join :: "error list \<Rightarrow> error option" where
  "errors_Join errs = (if errs = [] then None else Some (strings_Join errs [CHR 0x0A]))"

section \<open>identitiesMatch\<close>

text \<open>
  The type \<open>'u\<close> stands for a non-nil \<^verbatim>\<open>*url.URL\<close> and the parameter \<open>String\<close>
  for its method \<^verbatim>\<open>String()\<close>, the canonical string form of the URL.

  The final loop \<^verbatim>\<open>for i, v := range aa\<close> reads \<^verbatim>\<open>bb[i]\<close>; the index check of
  the Go runtime is written out.
\<close>

fun range_aa :: "('u \<Rightarrow> string) \<Rightarrow> 'u list \<Rightarrow> nat \<Rightarrow> string list \<Rightarrow> panic + bool" where
  "range_aa String bb i [] = Inr True"
| "range_aa String bb i (v # rest) =
     (if length bb \<le> i then Inl IndexOutOfRange
      else if String (bb ! i) \<noteq> v then Inr False
      else range_aa String bb (Suc i) rest)"

definition identitiesMatch :: "('u \<Rightarrow> string) \<Rightarrow> string list \<Rightarrow> 'u list \<Rightarrow> panic + bool" where
  "identitiesMatch String a b =
     (if length a \<noteq> length b then Inr False
      else
        let aa = sort_Strings a;
            bb = sort_SliceStable (\<lambda>x y. String x < String y) b
        in range_aa String bb 0 aa)"

text \<open>
  The Identity Matcher in the words of its specification: equal lengths, and the
  expected strings sorted lexicographically agree index by index with the canonical
  strings of the actual URIs sorted by canonical string.
\<close>

definition match_spec :: "('u \<Rightarrow> string) \<Rightarrow> string list \<Rightarrow> 'u list \<Rightarrow> bool" where
  "match_spec String expected actual \<longleftrightarrow>
     length expected = length actual \<and>
     (\<forall>i<length expected. String (sort_key String actual ! i) = sort expected ! i)"

section \<open>Types of the collaborators\<close>

type_synonym IP = "8 word list"

text \<open>\<^verbatim>\<open>security.Caller\<close>; \<open>'k\<close> is the type of its \<^verbatim>\<open>KubernetesInfo\<close>.\<close>

record 'k Caller =
  Identities :: "string list"
  KubernetesInfo :: 'k

text \<open>A \<^verbatim>\<open>structpb.Value\<close> is a string or of another kind; \<^verbatim>\<open>GetStringValue\<close>
  is the empty string on a \<^verbatim>\<open>nil\<close> value and on every kind but the string kind.
  \<^verbatim>\<open>GetFields\<close> of a \<^verbatim>\<open>nil\<close> struct is the \<^verbatim>\<open>nil\<close> map, where every lookup
  gives \<^verbatim>\<open>nil\<close>.\<close>

datatype Value = StringValue string | OtherValue

record IstioCertificateRequest =
  Csr :: string
  Metadata :: "(string \<rightharpoonup> Value) option"

definition GetFields :: "(string \<rightharpoonup> Value) option \<Rightarrow> (string \<rightharpoonup> Value)" where
  "GetFields m = (case m of None \<Rightarrow> Map.empty | Some fs \<Rightarrow> fs)"

definition GetStringValue :: "Value option \<Rightarrow> string" where
  "GetStringValue v = (case v of Some (StringValue x) \<Rightarrow> x | _ \<Rightarrow> '''')"

text \<open>\<^verbatim>\<open>x509.CertificateRequest\<close>: the three lists of subject alternative names that
  \<^verbatim>\<open>authRequest\<close> reads, and everything else (\<open>'r\<close>).\<close>

record ('u, 'r) CertificateRequest =
  URIs :: "'u list"
  IPAddresses :: "IP list"
  EmailAddresses :: "string list"
  Remainder :: 'r

text \<open>
  What \<^verbatim>\<open>authRequest\<close> uses from other packages: the metadata key
  \<^verbatim>\<open>security.ImpersonatedIdentity\<close>, \<^verbatim>\<open>pkiutil.ParsePemEncodedCSR\<close>, the method
  \<^verbatim>\<open>CheckSignature\<close> of the request, \<^verbatim>\<open>extensions.ValidateCSRExtentions\<close> and
  \<^verbatim>\<open>String\<close> of a URL.
\<close>

record ('u, 'r) deps =
  ImpersonatedIdentity :: string
  ParsePemEncodedCSR :: "string \<Rightarrow> error + ('u, 'r) CertificateRequest"
  CheckSignature :: "('u, 'r) CertificateRequest \<Rightarrow> error option"
  ValidateCSRExtentions :: "('u, 'r) CertificateRequest \<Rightarrow> error option"
  URL_String :: "'u \<Rightarrow> string"

section \<open>authRequest\<close>

text \<open>
  The fields of \<^verbatim>\<open>Server\<close> that \<^verbatim>\<open>authRequest\<close> reads. \<^verbatim>\<open>Authenticate\<close>
  returns a pointer to a caller and an error, and the loop tests the error alone: an
  authenticator maps the context (\<open>'c\<close>) to the error when it is not \<^verbatim>\<open>nil\<close>,
  and otherwise to the pointer, which is a caller or \<^verbatim>\<open>nil\<close> (\<^const>\<open>None\<close>).
  The node authorizer, when configured, maps the caller's \<^verbatim>\<open>KubernetesInfo\<close> and
  the impersonated identity to an error or \<^verbatim>\<open>nil\<close>.
\<close>

record ('c, 'k) Server =
  authenticators :: "('c \<Rightarrow> error + 'k Caller option) list"
  nodeAuthorizer :: "('k \<Rightarrow> string \<Rightarrow> error option) option"

text \<open>
  The function returns its pair of results together with the sequence of calls it
  made, in order. There is one constructor for each logging statement of the source,
  carrying the values passed to it (the logger made by \<^verbatim>\<open>WithValues\<close> passes
  \<^verbatim>\<open>identities\<close> first).
\<close>

datatype 'u log_call =
    Log_failed_to_authenticate "error option"
  | Log_no_identity
  | Log_impersonated_identity string
  | Log_impersonation_not_allowed
  | Log_failed_to_validate_impersonated string error
  | Log_failed_to_decode_CSR string error
  | Log_CSR_failed_signature_check string error
  | Log_forbidden_SANs string "IP list" "string list"
  | Log_forbidden_extensions string error
  | Log_failed_to_match_identities string "string list" "'u list"
  | Log_failed_to_match_impersonated string string "'u list"

datatype ('k, 'u) call =
    Call_Authenticate nat
  | Call_authenticateImpersonation 'k string
  | Call_ParsePemEncodedCSR string
  | Call_CheckSignature
  | Call_ValidateCSRExtentions
  | Call_identitiesMatch "string list" "'u list"
  | Log "'u log_call"

type_synonym ('k, 'u) outcome = "('k, 'u) call list \<times> (panic + string \<times> bool)"

text \<open>
  The loop over \<^verbatim>\<open>s.authenticators\<close> (lines 41 to 49). \<open>i\<close> is the position of the
  authenticator, \<open>errs\<close> the errors appended so far; the third result is
  \<^const>\<open>None\<close> when \<^verbatim>\<open>found\<close> is false and otherwise the pointer \<^verbatim>\<open>caller\<close>.
\<close>

fun range_authenticators ::
  "('c \<Rightarrow> error + 'k Caller option) list \<Rightarrow> 'c \<Rightarrow> nat \<Rightarrow> error list
     \<Rightarrow> ('k, 'u) call list
     \<Rightarrow> ('k, 'u) call list \<times> error list \<times> 'k Caller option option" where
  "range_authenticators [] ctx i errs tr = (tr, errs, None)"
| "range_authenticators (authenticator # rest) ctx i errs tr =
     (case authenticator ctx of
        Inr caller \<Rightarrow> (tr @ [Call_Authenticate i], errs, Some caller)
      | Inl err \<Rightarrow>
          range_authenticators rest ctx (Suc i) (errs @ [err]) (tr @ [Call_Authenticate i]))"

text \<open>Lines 82 to 121: from decoding the CSR to the end, given the caller, the
  impersonated identity and the value of \<^verbatim>\<open>identities\<close>.\<close>

definition authRequest_csr ::
  "('u, 'r) deps \<Rightarrow> 'k Caller \<Rightarrow> string \<Rightarrow> string \<Rightarrow> IstioCertificateRequest
     \<Rightarrow> ('k, 'u) call list \<Rightarrow> ('k, 'u) outcome" where
  "authRequest_csr env caller impersonatedIdentity identities icr tr =
     (let tr1 = tr @ [Call_ParsePemEncodedCSR (Csr icr)] in
      case ParsePemEncodedCSR env (Csr icr) of
        Inl err \<Rightarrow> (tr1 @ [Log (Log_failed_to_decode_CSR identities err)], Inr (identities, False))
      | Inr csr \<Rightarrow>
         (let tr2 = tr1 @ [Call_CheckSignature] in
          case CheckSignature env csr of
            Some err \<Rightarrow>
              (tr2 @ [Log (Log_CSR_failed_signature_check identities err)], Inr (identities, False))
          | None \<Rightarrow>
              if length (IPAddresses csr) > 0 \<or> length (EmailAddresses csr) > 0 then
                (tr2 @ [Log (Log_forbidden_SANs identities (IPAddresses csr) (EmailAddresses csr))],
                 Inr (identities, False))
              else
               (let tr3 = tr2 @ [Call_ValidateCSRExtentions] in
                case ValidateCSRExtentions env csr of
                  Some err \<Rightarrow>
                    (tr3 @ [Log (Log_forbidden_extensions identities err)], Inr (identities, False))
                | None \<Rightarrow>
                    if impersonatedIdentity = '''' then
                     (let tr4 = tr3 @ [Call_identitiesMatch (Identities caller) (URIs csr)] in
                      case identitiesMatch (URL_String env) (Identities caller) (URIs csr) of
                        Inl p \<Rightarrow> (tr4, Inl p)
                      | Inr matched \<Rightarrow>
                          if \<not> matched then
                            (tr4 @ [Log (Log_failed_to_match_identities identities
                                           (Identities caller) (URIs csr))],
                             Inr (identities, False))
                          else (tr4, Inr (identities, True)))
                    else
                     (let tr4 = tr3 @ [Call_identitiesMatch [impersonatedIdentity] (URIs csr)] in
                      case identitiesMatch (URL_String env) [impersonatedIdentity] (URIs csr) of
                        Inl p \<Rightarrow> (tr4, Inl p)
                      | Inr matched \<Rightarrow>
                          if \<not> matched then
                            (tr4 @ [Log (Log_failed_to_match_impersonated identities
                                           impersonatedIdentity (URIs csr))],
                             Inr (identities, False))
                          else (tr4, Inr (identities, True))))))"

text \<open>Lines 56 to 79 and then the rest: what happens once an authenticator has
  returned the pointer \<open>pointer\<close> without an error. Line 57 reads
  \<^verbatim>\<open>caller.Identities\<close> through it, which panics when it is \<^verbatim>\<open>nil\<close>. The
  variable \<^verbatim>\<open>identities\<close> is declared without a value and so holds the empty
  string until it is assigned.\<close>

definition authRequest_caller ::
  "('u, 'r) deps \<Rightarrow> ('c, 'k) Server \<Rightarrow> 'k Caller option \<Rightarrow> IstioCertificateRequest
     \<Rightarrow> ('k, 'u) call list \<Rightarrow> ('k, 'u) outcome" where
  "authRequest_caller env s pointer icr tr =
     (case pointer of
        None \<Rightarrow> (tr, Inl NilDereference)
      | Some caller \<Rightarrow>
      if length (Identities caller) = 0 then (tr @ [Log Log_no_identity], Inr ('''', False))
      else
        let identities = '''';
            crMetadata = GetFields (Metadata icr);
            impersonatedIdentity = GetStringValue (crMetadata (ImpersonatedIdentity env))
        in
          if impersonatedIdentity \<noteq> '''' then
           (let tr1 = tr @ [Log (Log_impersonated_identity impersonatedIdentity)] in
            case nodeAuthorizer s of
              None \<Rightarrow> (tr1 @ [Log Log_impersonation_not_allowed], Inr ('''', False))
            | Some authorizer \<Rightarrow>
               (let tr2 = tr1 @ [Call_authenticateImpersonation (KubernetesInfo caller)
                                   impersonatedIdentity] in
                case authorizer (KubernetesInfo caller) impersonatedIdentity of
                  Some err \<Rightarrow>
                    (tr2 @ [Log (Log_failed_to_validate_impersonated impersonatedIdentity err)],
                     Inr (identities, False))
                | None \<Rightarrow>
                    authRequest_csr env caller impersonatedIdentity impersonatedIdentity icr tr2))
          else
            authRequest_csr env caller impersonatedIdentity
              (strings_Join (Identities caller) '','') icr tr)"

text \<open>The whole function: the loop, the failure to authenticate (lines 50 to 54), or
  the rest with the caller found.\<close>

definition authRequest ::
  "('u, 'r) deps \<Rightarrow> ('c, 'k) Server \<Rightarrow> 'c \<Rightarrow> IstioCertificateRequest \<Rightarrow> ('k, 'u) outcome" where
  "authRequest env s ctx icr =
     (case range_authenticators (authenticators s) ctx 0 [] [] of
        (tr, errs, None) \<Rightarrow>
          (tr @ [Log (Log_failed_to_authenticate (errors_Join errs))], Inr ('''', False))
      | (tr, errs, Some caller) \<Rightarrow> authRequest_caller env s caller icr tr)"

text \<open>The impersonated identity that \<^verbatim>\<open>authRequest\<close> reads from the request
  (lines 64 and 65).\<close>

definition impersonated :: "('u, 'r) deps \<Rightarrow> IstioCertificateRequest \<Rightarrow> string" where
  "impersonated env icr = GetStringValue (GetFields (Metadata icr) (ImpersonatedIdentity env))"

section \<open>identitiesMatch on a store of arrays\<close>

text \<open>
  A Go slice is a view of an array: the array, the position of its first element in
  it, and its length (the capacity plays no part here). The store holds the arrays of
  strings and the arrays of \<^verbatim>\<open>*url.URL\<close>, each under its index; a cell of the
  latter is a pointer, \<^const>\<open>None\<close> for \<^verbatim>\<open>nil\<close>. A slice of length 0, such as
  the \<^verbatim>\<open>nil\<close> slice, reads as the empty list whatever its array is.
\<close>

record slice =
  Data :: nat
  Off :: nat
  Len :: nat

record 'u store =
  string_arrays :: "string list list"
  URL_arrays :: "'u option list list"

definition load :: "'a list list \<Rightarrow> slice \<Rightarrow> 'a list" where
  "load arrays x = take (Len x) (drop (Off x) (arrays ! Data x))"

definition store_at :: "'a list list \<Rightarrow> slice \<Rightarrow> 'a list \<Rightarrow> 'a list list" where
  "store_at arrays x vs =
     arrays[Data x := take (Off x) (arrays ! Data x) @ vs @
                      drop (Off x + length vs) (arrays ! Data x)]"

text \<open>\<^verbatim>\<open>make([]T, n)\<close> allocates a new array of \<open>n\<close> zero values: the empty string,
  or the \<^verbatim>\<open>nil\<close> pointer.\<close>

definition make_strings :: "nat \<Rightarrow> 'u store \<Rightarrow> slice \<times> 'u store" where
  "make_strings n st =
     (\<lparr>Data = length (string_arrays st), Off = 0, Len = n\<rparr>,
      st\<lparr>string_arrays := string_arrays st @ [replicate n '''']\<rparr>)"

definition make_URLs :: "nat \<Rightarrow> 'u store \<Rightarrow> slice \<times> 'u store" where
  "make_URLs n st =
     (\<lparr>Data = length (URL_arrays st), Off = 0, Len = n\<rparr>,
      st\<lparr>URL_arrays := URL_arrays st @ [replicate n None]\<rparr>)"

text \<open>\<^verbatim>\<open>copy(dst, src)\<close> copies as many elements as the shorter of the two holds.\<close>

definition copy_strings :: "slice \<Rightarrow> slice \<Rightarrow> 'u store \<Rightarrow> 'u store" where
  "copy_strings dst src st =
     st\<lparr>string_arrays := store_at (string_arrays st) dst
          (take (min (Len dst) (Len src)) (load (string_arrays st) src))\<rparr>"

definition copy_URLs :: "slice \<Rightarrow> slice \<Rightarrow> 'u store \<Rightarrow> 'u store" where
  "copy_URLs dst src st =
     st\<lparr>URL_arrays := store_at (URL_arrays st) dst
          (take (min (Len dst) (Len src)) (load (URL_arrays st) src))\<rparr>"

text \<open>The sorts work in place, on the array of the slice.\<close>

definition sort_Strings_store :: "slice \<Rightarrow> 'u store \<Rightarrow> 'u store" where
  "sort_Strings_store x st =
     st\<lparr>string_arrays := store_at (string_arrays st) x
          (sort_Strings (load (string_arrays st) x))\<rparr>"

text \<open>A comparison that calls a method through a pointer can panic, and then so does
  the sort. The stable insertion is the one above, with the panic passed on.\<close>

fun insertStable_panic ::
  "('a \<Rightarrow> 'a \<Rightarrow> panic + bool) \<Rightarrow> 'a \<Rightarrow> 'a list \<Rightarrow> panic + 'a list" where
  "insertStable_panic lt x [] = Inr [x]"
| "insertStable_panic lt x (y # ys) =
     (case lt y x of
        Inl p \<Rightarrow> Inl p
      | Inr smaller \<Rightarrow>
          if smaller then
            (case insertStable_panic lt x ys of Inl p \<Rightarrow> Inl p | Inr zs \<Rightarrow> Inr (y # zs))
          else Inr (x # y # ys))"

fun sort_SliceStable_panic :: "('a \<Rightarrow> 'a \<Rightarrow> panic + bool) \<Rightarrow> 'a list \<Rightarrow> panic + 'a list" where
  "sort_SliceStable_panic lt [] = Inr []"
| "sort_SliceStable_panic lt (x # xs) =
     (case sort_SliceStable_panic lt xs of
        Inl p \<Rightarrow> Inl p
      | Inr ys \<Rightarrow> insertStable_panic lt x ys)"

text \<open>The comparison of line 139, \<^verbatim>\<open>bb[i].String() < bb[j].String()\<close>, on two cells.\<close>

definition less_URL :: "('u \<Rightarrow> string) \<Rightarrow> 'u option \<Rightarrow> 'u option \<Rightarrow> panic + bool" where
  "less_URL String x y =
     (case x of
        None \<Rightarrow> Inl NilDereference
      | Some u \<Rightarrow> (case y of None \<Rightarrow> Inl NilDereference | Some v \<Rightarrow> Inr (String u < String v)))"

text \<open>When the sort panics, the store is returned as it was before the sort; the
  array it was permuting is the new one of \<^verbatim>\<open>bb\<close>.\<close>

definition sort_SliceStable_store ::
  "('u option \<Rightarrow> 'u option \<Rightarrow> panic + bool) \<Rightarrow> slice \<Rightarrow> 'u store \<Rightarrow> panic option \<times> 'u store" where
  "sort_SliceStable_store lt x st =
     (case sort_SliceStable_panic lt (load (URL_arrays st) x) of
        Inl p \<Rightarrow> (Some p, st)
      | Inr vs \<Rightarrow> (None, st\<lparr>URL_arrays := store_at (URL_arrays st) x vs\<rparr>))"

text \<open>The final loop, on the cells of \<^verbatim>\<open>bb\<close>.\<close>

fun range_aa_store ::
  "('u \<Rightarrow> string) \<Rightarrow> 'u option list \<Rightarrow> nat \<Rightarrow> string list \<Rightarrow> panic + bool" where
  "range_aa_store String bb i [] = Inr True"
| "range_aa_store String bb i (v # rest) =
     (if length bb \<le> i then Inl IndexOutOfRange
      else case bb ! i of
        None \<Rightarrow> Inl NilDereference
      | Some u \<Rightarrow>
          if String u \<noteq> v then Inr False
          else range_aa_store String bb (Suc i) rest)"

text \<open>\<^verbatim>\<open>identitiesMatch\<close> with its two arguments as slices of a store; it returns
  the store it leaves behind.\<close>

definition identitiesMatch_store ::
  "('u \<Rightarrow> string) \<Rightarrow> slice \<Rightarrow> slice \<Rightarrow> 'u store \<Rightarrow> (panic + bool) \<times> 'u store" where
  "identitiesMatch_store String a b st =
     (if Len a \<noteq> Len b then (Inr False, st)
      else
        let (aa, st1) = make_strings (Len a) st;
            (bb, st2) = make_URLs (Len b) st1;
            st3 = copy_strings aa a st2;
            st4 = copy_URLs bb b st3;
            st5 = sort_Strings_store aa st4
        in case sort_SliceStable_store (less_URL String) bb st5 of
             (Some p, st6) \<Rightarrow> (Inl p, st6)
           | (None, st6) \<Rightarrow>
               (range_aa_store String (load (URL_arrays st6) bb) 0
                  (load (string_arrays st6) aa), st6))"

text \<open>A slice is valid in a list of arrays when it is empty or lies within one of
  them.\<close>

definition valid :: "'a list list \<Rightarrow> slice \<Rightarrow> bool" where
  "valid arrays x \<longleftrightarrow>
     Len x = 0 \<or> (Data x < length arrays \<and> Off x + Len x \<le> length (arrays ! Data x))"

section \<open>Example values\<close>

definition foo :: string where
  "foo = ''spiffe://cluster/ns/default/sa/foo''"

definition ex_parse :: "string \<Rightarrow> error + (string, unit) CertificateRequest" where
  "ex_parse pem =
     (if pem = ''csr-foo'' then
        Inr \<lparr>URIs = [foo], IPAddresses = [], EmailAddresses = [], Remainder = ()\<rparr>
      else if pem = ''csr-foo-ip'' then
        Inr \<lparr>URIs = [foo], IPAddresses = [[127, 0, 0, 1]], EmailAddresses = [], Remainder = ()\<rparr>
      else if pem = ''csr-empty'' then
        Inr \<lparr>URIs = [], IPAddresses = [], EmailAddresses = [], Remainder = ()\<rparr>
      else Inl ''failed to decode'')"

definition ex_deps :: "(string, unit) deps" where
  "ex_deps = \<lparr>ImpersonatedIdentity = ''ImpersonatedIdentity'', ParsePemEncodedCSR = ex_parse,
     CheckSignature = (\<lambda>_. None), ValidateCSRExtentions = (\<lambda>_. None),
     URL_String = (\<lambda>u. u)\<rparr>"

definition ex_caller :: "unit Caller" where
  "ex_caller = \<lparr>Identities = [foo], KubernetesInfo = ()\<rparr>"

definition ex_server :: "(unit, unit) Server" where
  "ex_server = \<lparr>authenticators =
       [\<lambda>_. Inl ''no token'', \<lambda>_. Inr (Some ex_caller),
        \<lambda>_. Inr (Some \<lparr>Identities = [''other''], KubernetesInfo = ()\<rparr>)],
     nodeAuthorizer = None\<rparr>"

definition ex_request :: IstioCertificateRequest where
  "ex_request = \<lparr>Csr = ''csr-foo'', Metadata = None\<rparr>"

definition ex_impersonating :: IstioCertificateRequest where
  "ex_impersonating =
     \<lparr>Csr = ''csr-foo'', Metadata = Some [''ImpersonatedIdentity'' \<mapsto> StringValue foo]\<rparr>"

definition ex_request_ip :: IstioCertificateRequest where
  "ex_request_ip = \<lparr>Csr = ''csr-foo-ip'', Metadata = None\<rparr>"

definition ex_request_garbage :: IstioCertificateRequest where
  "ex_request_garbage = \<lparr>Csr = ''garbage'', Metadata = None\<rparr>"

definition ex_request_empty :: IstioCertificateRequest where
  "ex_request_empty = \<lparr>Csr = ''csr-empty'', Metadata = None\<rparr>"

definition ex_denying :: "(unit, unit) Server" where
  "ex_denying = ex_server\<lparr>nodeAuthorizer := Some (\<lambda>k identity. Some ''not a trusted node'')\<rparr>"

definition ex_no_identity :: "(unit, unit) Server" where
  "ex_no_identity =
     \<lparr>authenticators = [\<lambda>_. Inr (Some \<lparr>Identities = [], KubernetesInfo = ()\<rparr>)],
      nodeAuthorizer = None\<rparr>"

definition ex_nil_caller :: "(unit, unit) Server" where
  "ex_nil_caller = \<lparr>authenticators = [\<lambda>_. Inr None], nodeAuthorizer = None\<rparr>"

definition ex_unauthenticated :: "(unit, unit) Server" where
  "ex_unauthenticated =
     \<lparr>authenticators = [\<lambda>_. Inl ''no token'', \<lambda>_. Inl ''no certificate''],
      nodeAuthorizer = None\<rparr>"

definition ex_store :: "string store" where
  "ex_store = \<lparr>string_arrays = [[''zero'', ''b'', ''a'', ''three'']],
     URL_arrays = [[Some ''a'', Some ''b'']]\<rparr>"

definition ex_a :: slice where
  "ex_a = \<lparr>Data = 0, Off = 1, Len = 2\<rparr>"

definition ex_b :: slice where
  "ex_b = \<lparr>Data = 0, Off = 0, Len = 2\<rparr>"

section \<open>Properties of identitiesMatch\<close>

lemma insertStable_insort_key:
  "insertStable (\<lambda>x y. f x < f y) x ys = insort_key f x ys"
  by (induction ys) (auto simp: not_less)

lemma sort_SliceStable_sort_key:
  "sort_SliceStable (\<lambda>x y. f x < f y) xs = sort_key f xs"
  by (induction xs) (simp_all add: sort_SliceStable_def insertStable_insort_key)

lemma sort_Strings_sort: "sort_Strings x = sort x"
  using sort_SliceStable_sort_key [of "\<lambda>s. s" x] by (simp add: sort_Strings_def)

text \<open>The loop never reads out of range when the two lists are as long as each
  other, and it decides equality of what is left of them.\<close>

lemma range_aa_drop:
  "length bb = i + length aa \<Longrightarrow>
   range_aa String bb i aa = Inr (map String (drop i bb) = aa)"
proof (induction aa arbitrary: i)
  case Nil
  then show ?case by simp
next
  case (Cons v rest)
  from Cons.prems have lt: "i < length bb" and len: "length bb = Suc i + length rest"
    by simp_all
  have d: "drop i bb = bb ! i # drop (Suc i) bb"
    using lt by (simp add: Cons_nth_drop_Suc)
  show ?case
    using Cons.IH [OF len] lt by (simp add: d)
qed

lemma identitiesMatch_sorted:
  "identitiesMatch String a b =
     Inr (length a = length b \<and> map String (sort_key String b) = sort a)"
proof (cases "length a = length b")
  case False
  then show ?thesis by (simp add: identitiesMatch_def)
next
  case True
  then have "length (sort_key String b) = 0 + length (sort a)" by simp
  from range_aa_drop [OF this] True show ?thesis
    by (simp add: identitiesMatch_def sort_Strings_sort sort_SliceStable_sort_key)
qed

lemma sorted_forms_mset:
  "map String (sort_key String b) = sort a \<longleftrightarrow> mset a = mset (map String b)"
proof
  assume "map String (sort_key String b) = sort a"
  then have "mset (map String (sort_key String b)) = mset (sort a)" by simp
  then show "mset a = mset (map String b)" by simp
next
  assume m: "mset a = mset (map String b)"
  have "sort a = map String (sort_key String b)"
  proof (rule properties_for_sort)
    show "mset (map String (sort_key String b)) = mset a" using m by simp
    show "sorted (map String (sort_key String b))" by simp
  qed
  then show "map String (sort_key String b) = sort a" by simp
qed

text \<open>The matcher decides equality of multisets: of the expected strings and of the
  canonical strings of the URIs.\<close>

lemma identitiesMatch_mset:
  "identitiesMatch String a b = Inr (mset a = mset (map String b))"
proof -
  have "mset a = mset (map String b) \<Longrightarrow> length a = length b"
    by (metis length_map size_mset)
  then show ?thesis
    by (auto simp: identitiesMatch_sorted sorted_forms_mset)
qed

lemma match_spec_sorted:
  "match_spec String a b \<longleftrightarrow>
     length a = length b \<and> map String (sort_key String b) = sort a"
  by (auto simp: match_spec_def list_eq_iff_nth_eq)

text \<open>
  C1. For all expected strings \<open>a\<close> and actual URIs \<open>b\<close>, \<^verbatim>\<open>identitiesMatch\<close> returns
  true exactly when the lists are equally long and, both sorted (the strings
  lexicographically, the URIs by canonical string), agree at every index under string
  equality. The result does not change when either list is reordered, and lists of
  different lengths never match.
\<close>

theorem identitiesMatch_sorted_pairwise:
  "identitiesMatch String a b = Inr (match_spec String a b) \<and>
   (\<forall>a' b'. mset a' = mset a \<and> mset b' = mset b \<longrightarrow>
      identitiesMatch String a' b' = identitiesMatch String a b) \<and>
   (length a \<noteq> length b \<longrightarrow> identitiesMatch String a b = Inr False)"
proof (intro conjI allI impI)
  show "identitiesMatch String a b = Inr (match_spec String a b)"
    by (simp add: identitiesMatch_sorted match_spec_sorted)
next
  fix a' :: "string list" and b' :: "'a list"
  assume "mset a' = mset a \<and> mset b' = mset b"
  then have "mset a' = mset a" and "mset (map String b') = mset (map String b)"
    by simp_all
  then show "identitiesMatch String a' b' = identitiesMatch String a b"
    by (simp add: identitiesMatch_mset)
next
  assume "length a \<noteq> length b"
  then show "identitiesMatch String a b = Inr False"
    by (simp add: identitiesMatch_def)
qed

theorem identitiesMatch_sorted_pairwise_witness:
  "identitiesMatch (\<lambda>u. u) [''b'', ''a''] [''a'', ''b''] = Inr True \<and>
   match_spec (\<lambda>u. u) [''b'', ''a''] [''a'', ''b''] \<and>
   identitiesMatch (\<lambda>u. u) [''a'', ''b''] [''b'', ''a''] = Inr True \<and>
   identitiesMatch (\<lambda>u. u) [''a'', ''a''] [''a''] = Inr False \<and>
   identitiesMatch (\<lambda>u. u) [''spiffe://c/ns/d/sa/e''] [''spiffe://c/ns/d/sa/E''] = Inr False"
proof -
  have run: "identitiesMatch (\<lambda>u. u) [''b'', ''a''] [''a'', ''b''] = Inr True"
    by (simp add: identitiesMatch_def sort_Strings_def sort_SliceStable_def)
  have perm: "mset [''a'', ''b''] = mset [''b'', ''a''] \<and>
      mset [''b'', ''a''] = mset [''a'', ''b'']"
    by simp
  have len: "length [''a'', ''a''] \<noteq> length [''a'']"
    by simp
  note t1 = identitiesMatch_sorted_pairwise [of "\<lambda>u. u" "[''b'', ''a'']" "[''a'', ''b'']"]
  note t2 = identitiesMatch_sorted_pairwise [of "\<lambda>u. u" "[''a'', ''a'']" "[''a'']"]
  note t3 = identitiesMatch_sorted_pairwise
    [of "\<lambda>u. u" "[''spiffe://c/ns/d/sa/e'']" "[''spiffe://c/ns/d/sa/E'']"]
  have m: "match_spec (\<lambda>u. u) [''b'', ''a''] [''a'', ''b'']"
    using t1 run by simp
  have p: "identitiesMatch (\<lambda>u. u) [''a'', ''b''] [''b'', ''a''] = Inr True"
    using t1 perm run by metis
  have l: "identitiesMatch (\<lambda>u. u) [''a'', ''a''] [''a''] = Inr False"
    using t2 len by blast
  have c: "identitiesMatch (\<lambda>u. u) [''spiffe://c/ns/d/sa/e''] [''spiffe://c/ns/d/sa/E'']
      = Inr False"
    using t3 by (simp add: match_spec_def)
  from run m p l c show ?thesis by blast
qed

section \<open>The authenticator loop\<close>

lemma range_authenticators_all_fail:
  assumes "\<forall>a\<in>set as. isl (a ctx)"
  shows "range_authenticators as ctx i errs tr =
    (tr @ map Call_Authenticate [i..<i + length as], errs @ map (\<lambda>a. projl (a ctx)) as, None)"
  using assms
proof (induction as arbitrary: i errs tr)
  case Nil
  show ?case by simp
next
  case (Cons a as)
  then obtain e where e: "a ctx = Inl e"
    by (cases "a ctx") auto
  have "range_authenticators (a # as) ctx i errs tr =
      range_authenticators as ctx (Suc i) (errs @ [e]) (tr @ [Call_Authenticate i])"
    using e by simp
  also have "\<dots> = ((tr @ [Call_Authenticate i]) @ map Call_Authenticate [Suc i..<Suc i + length as],
      (errs @ [e]) @ map (\<lambda>a. projl (a ctx)) as, None)"
    using Cons by simp
  also have "\<dots> = (tr @ map Call_Authenticate [i..<i + length (a # as)],
      errs @ map (\<lambda>a. projl (a ctx)) (a # as), None)"
    using e by (simp add: upt_conv_Cons del: upt_Suc)
  finally show ?case .
qed

lemma range_authenticators_first_success:
  assumes "\<forall>f\<in>set fs. isl (f ctx)" and "a ctx = Inr c"
  shows "range_authenticators (fs @ a # rest) ctx i errs tr =
    (tr @ map Call_Authenticate [i..<Suc (i + length fs)],
     errs @ map (\<lambda>f. projl (f ctx)) fs, Some c)"
  using assms
proof (induction fs arbitrary: i errs tr)
  case Nil
  then show ?case by simp
next
  case (Cons f fs)
  then obtain e where e: "f ctx = Inl e"
    by (cases "f ctx") auto
  have "range_authenticators ((f # fs) @ a # rest) ctx i errs tr =
      range_authenticators (fs @ a # rest) ctx (Suc i) (errs @ [e]) (tr @ [Call_Authenticate i])"
    using e by simp
  also have "\<dots> = ((tr @ [Call_Authenticate i]) @
        map Call_Authenticate [Suc i..<Suc (Suc i + length fs)],
      (errs @ [e]) @ map (\<lambda>f. projl (f ctx)) fs, Some c)"
    using Cons by simp
  also have "\<dots> = (tr @ map Call_Authenticate [i..<Suc (i + length (f # fs))],
      errs @ map (\<lambda>f. projl (f ctx)) (f # fs), Some c)"
    using e by (simp add: upt_conv_Cons del: upt_Suc)
  finally show ?case .
qed

lemma authenticators_cases:
  "(\<forall>a\<in>set as. isl (a ctx)) \<or>
   (\<exists>fs a rest c. as = fs @ a # rest \<and> (\<forall>f\<in>set fs. isl (f ctx)) \<and> a ctx = Inr c)"
proof (cases "\<forall>a\<in>set as. isl (a ctx)")
  case True
  then show ?thesis by simp
next
  case False
  then have "\<exists>a\<in>set as. \<not> isl (a ctx)" by simp
  then obtain fs a rest where d: "as = fs @ a # rest" and a: "\<not> isl (a ctx)"
    and fs: "\<forall>f\<in>set fs. \<not> \<not> isl (f ctx)"
    using split_list_first_prop [of as "\<lambda>a. \<not> isl (a ctx)"] by blast
  from a obtain c where "a ctx = Inr c"
    by (cases "a ctx") auto
  with d fs show ?thesis by auto
qed

text \<open>The authenticator at which the loop stops is determined by the list.\<close>

lemma first_success_unique:
  fixes as :: "('c \<Rightarrow> error + 'k Caller option) list"
  assumes "as = fs @ a # rest" and "\<forall>f\<in>set fs. isl (f ctx)" and "a ctx = Inr c"
    and "as = gs @ b # more_auths" and "\<forall>f\<in>set gs. isl (f ctx)" and "b ctx = Inr c'"
  shows "c = c'"
proof -
  let ?run = "range_authenticators as ctx 0 [] ([] :: ('k, unit) call list)"
  have "snd (snd ?run) = Some c"
    unfolding assms(1)
    by (simp add: range_authenticators_first_success [of fs ctx a c, OF assms(2,3)])
  moreover have "snd (snd ?run) = Some c'"
    unfolding assms(4)
    by (simp add: range_authenticators_first_success [of gs ctx b c', OF assms(5,6)])
  ultimately show ?thesis by simp
qed

lemma no_nil_stop:
  fixes as :: "('c \<Rightarrow> error + 'k Caller option) list"
  assumes "as = fs @ a # rest" and "\<forall>f\<in>set fs. isl (f ctx)" and "a ctx = Inr (Some c)"
  shows "\<not> (\<exists>gs b more_auths. as = gs @ b # more_auths \<and> (\<forall>f\<in>set gs. isl (f ctx)) \<and>
    b ctx = Inr None)"
proof
  assume "\<exists>gs b more_auths. as = gs @ b # more_auths \<and> (\<forall>f\<in>set gs. isl (f ctx)) \<and>
    b ctx = Inr None"
  then obtain gs b more_auths where "as = gs @ b # more_auths" "\<forall>f\<in>set gs. isl (f ctx)"
    "b ctx = Inr None"
    by blast
  from first_success_unique [OF assms this] show False by simp
qed

lemma all_fail_no_stop:
  assumes "\<forall>a\<in>set as. isl (a ctx)"
  shows "\<not> (\<exists>gs b more_auths. as = gs @ b # more_auths \<and> (\<forall>f\<in>set gs. isl (f ctx)) \<and>
    b ctx = Inr c)"
proof
  assume "\<exists>gs b more_auths. as = gs @ b # more_auths \<and> (\<forall>f\<in>set gs. isl (f ctx)) \<and>
    b ctx = Inr c"
  then obtain gs b more_auths where d: "as = gs @ b # more_auths" and b: "b ctx = Inr c"
    by blast
  from d have "b \<in> set as" by simp
  with assms have "isl (b ctx)" by blast
  with b show False by simp
qed

lemma authRequest_denied:
  assumes "\<forall>a\<in>set (authenticators s). isl (a ctx)"
  shows "authRequest env s ctx icr =
    (map Call_Authenticate [0..<length (authenticators s)] @
       [Log (Log_failed_to_authenticate
               (errors_Join (map (\<lambda>a. projl (a ctx)) (authenticators s))))],
     Inr ('''', False))"
  by (simp add: authRequest_def range_authenticators_all_fail [OF assms])

lemma authRequest_found:
  assumes "authenticators s = fs @ a # rest" and "\<forall>f\<in>set fs. isl (f ctx)"
    and "a ctx = Inr c"
  shows "authRequest env s ctx icr =
    authRequest_caller env s c icr (map Call_Authenticate [0..<Suc (length fs)])"
  by (simp add: authRequest_def assms(1)
      range_authenticators_first_success [of fs ctx a c, OF assms(2,3)])

section \<open>The steps after authentication\<close>

text \<open>The results of the last part: \<^verbatim>\<open>identities\<close> as it was passed in, and
  whether every check of the CSR passed. No branch panics.\<close>

lemma authRequest_csr_result:
  "snd (authRequest_csr env caller imp ids icr tr) =
     Inr (ids,
       case ParsePemEncodedCSR env (Csr icr) of
         Inl err \<Rightarrow> False
       | Inr csr \<Rightarrow>
           CheckSignature env csr = None \<and> IPAddresses csr = [] \<and> EmailAddresses csr = [] \<and>
           ValidateCSRExtentions env csr = None \<and>
           mset (if imp = '''' then Identities caller else [imp]) =
             mset (map (URL_String env) (URIs csr)))"
  by (auto simp add: authRequest_csr_def Let_def identitiesMatch_mset
      split: sum.split option.split)

lemma authRequest_csr_trace:
  "\<exists>tr'. fst (authRequest_csr env caller imp ids icr tr) = tr @ tr' \<and>
     (\<forall>i. Call_Authenticate i \<notin> set tr') \<and>
     (\<forall>e. Log (Log_failed_to_authenticate e) \<notin> set tr') \<and>
     (\<forall>x y. Call_identitiesMatch x y \<in> set tr' \<longrightarrow>
        x = (if imp = '''' then Identities caller else [imp]))"
  by (simp add: authRequest_csr_def Let_def identitiesMatch_mset
      split: sum.split option.split)

lemma authRequest_caller_nil:
  "authRequest_caller env s None icr tr = (tr, Inl NilDereference)"
  by (simp add: authRequest_caller_def)

lemma authRequest_caller_result:
  "snd (authRequest_caller env s (Some c) icr tr) =
    (if Identities c = [] then Inr ('''', False)
     else if impersonated env icr = '''' then
       snd (authRequest_csr env c '''' (strings_Join (Identities c) '','') icr tr)
     else case nodeAuthorizer s of
       None \<Rightarrow> Inr ('''', False)
     | Some authorizer \<Rightarrow>
        (case authorizer (KubernetesInfo c) (impersonated env icr) of
           Some err \<Rightarrow> Inr ('''', False)
         | None \<Rightarrow>
             snd (authRequest_csr env c (impersonated env icr) (impersonated env icr) icr tr)))"
  by (simp add: authRequest_caller_def impersonated_def Let_def authRequest_csr_result
      split: option.split)

lemma authRequest_caller_trace_Some:
  "\<exists>tr'. fst (authRequest_caller env s (Some c) icr tr) = tr @ tr' \<and>
     (\<forall>i. Call_Authenticate i \<notin> set tr') \<and>
     (\<forall>e. Log (Log_failed_to_authenticate e) \<notin> set tr') \<and>
     (\<forall>x y. Call_identitiesMatch x y \<in> set tr' \<longrightarrow> x \<noteq> [])"
proof (cases "Identities c = []")
  case True
  then show ?thesis by (simp add: authRequest_caller_def)
next
  case ne: False
  show ?thesis
  proof (cases "impersonated env icr = ''''")
    case True
    obtain tr' where t: "fst (authRequest_csr env c '''' (strings_Join (Identities c) '','') icr tr)
        = tr @ tr'"
      and a: "\<forall>i. Call_Authenticate i \<notin> set tr'"
      and l: "\<forall>e. Log (Log_failed_to_authenticate e) \<notin> set tr'"
      and m: "\<forall>x y. Call_identitiesMatch x y \<in> set tr' \<longrightarrow>
                x = (if '''' = '''' then Identities c else [''''])"
      using authRequest_csr_trace [of env c "''''" "strings_Join (Identities c) '',''" icr tr]
      by (elim exE conjE) auto
    from m ne have "\<forall>x y. Call_identitiesMatch x y \<in> set tr' \<longrightarrow> x \<noteq> []" by auto
    with t a l True ne show ?thesis
      using impersonated_def [of env icr] by (simp add: authRequest_caller_def Let_def)
  next
    case imp: False
    show ?thesis
    proof (cases "nodeAuthorizer s")
      case None
      with ne imp show ?thesis
        using impersonated_def [of env icr] by (simp add: authRequest_caller_def Let_def)
    next
      case (Some authorizer)
      show ?thesis
      proof (cases "authorizer (KubernetesInfo c) (impersonated env icr)")
        case (Some err)
        with ne imp \<open>nodeAuthorizer s = Some authorizer\<close> show ?thesis
          using impersonated_def [of env icr] by (simp add: authRequest_caller_def Let_def)
      next
        case None
        let ?tr2 = "tr @ [Log (Log_impersonated_identity (impersonated env icr)),
          Call_authenticateImpersonation (KubernetesInfo c) (impersonated env icr)]"
        obtain tr' where t: "fst (authRequest_csr env c (impersonated env icr)
            (impersonated env icr) icr ?tr2) = ?tr2 @ tr'"
          and a: "\<forall>i. Call_Authenticate i \<notin> set tr'"
          and l: "\<forall>e. Log (Log_failed_to_authenticate e) \<notin> set tr'"
          and m: "\<forall>x y. Call_identitiesMatch x y \<in> set tr' \<longrightarrow>
                x = (if impersonated env icr = '''' then Identities c
                     else [impersonated env icr])"
          using authRequest_csr_trace
            [of env c "impersonated env icr" "impersonated env icr" icr ?tr2]
          by (elim exE conjE) auto
        from m imp have m': "\<forall>x y. Call_identitiesMatch x y \<in> set tr' \<longrightarrow> x \<noteq> []" by auto
        have "fst (authRequest_caller env s (Some c) icr tr) = ?tr2 @ tr'"
          using ne imp None \<open>nodeAuthorizer s = Some authorizer\<close> t
            impersonated_def [of env icr]
          by (simp add: authRequest_caller_def Let_def)
        with a l m' show ?thesis by simp
      qed
    qed
  qed
qed

lemma authRequest_caller_trace:
  "\<exists>tr'. fst (authRequest_caller env s c icr tr) = tr @ tr' \<and>
     (\<forall>i. Call_Authenticate i \<notin> set tr') \<and>
     (\<forall>e. Log (Log_failed_to_authenticate e) \<notin> set tr') \<and>
     (\<forall>x y. Call_identitiesMatch x y \<in> set tr' \<longrightarrow> x \<noteq> [])"
proof (cases c)
  case None
  then show ?thesis by (simp add: authRequest_caller_nil)
next
  case (Some c')
  show ?thesis
    unfolding Some by (rule authRequest_caller_trace_Some)
qed

lemma authRequest_caller_not_configured:
  assumes "impersonated env icr \<noteq> ''''" and "nodeAuthorizer s = None"
  shows "authRequest_caller env s (Some c) icr tr =
    (if Identities c = [] then (tr @ [Log Log_no_identity], Inr ('''', False))
     else (tr @ [Log (Log_impersonated_identity (impersonated env icr)),
                 Log Log_impersonation_not_allowed], Inr ('''', False)))"
  using assms by (simp add: authRequest_caller_def impersonated_def Let_def)

section \<open>The claims about authRequest\<close>

text \<open>
  C2. When the authenticator that succeeds returns the single identity
  \<^verbatim>\<open>spiffe://cluster/ns/default/sa/foo\<close> (every authenticator before it having
  failed), the request carries no impersonated identity, the CSR decodes, its
  signature verifies, it has no IP and no email names, the extension validator accepts
  it and its URI names are that one identity, \<^verbatim>\<open>authRequest\<close> returns that
  identity and true.
\<close>

theorem authRequest_end_to_end_success:
  assumes "authenticators s = fs @ a # rest" and "\<forall>f\<in>set fs. isl (f ctx)"
    and "a ctx = Inr (Some c)"
    and "Identities c = [''spiffe://cluster/ns/default/sa/foo'']"
    and "impersonated env icr = ''''"
    and "ParsePemEncodedCSR env (Csr icr) = Inr csr"
    and "CheckSignature env csr = None"
    and "IPAddresses csr = []" and "EmailAddresses csr = []"
    and "ValidateCSRExtentions env csr = None"
    and "map (URL_String env) (URIs csr) = [''spiffe://cluster/ns/default/sa/foo'']"
  shows "snd (authRequest env s ctx icr) = Inr (''spiffe://cluster/ns/default/sa/foo'', True)"
proof -
  have "snd (authRequest env s ctx icr) =
      snd (authRequest_caller env s (Some c) icr (map Call_Authenticate [0..<Suc (length fs)]))"
    by (simp add: authRequest_found [OF assms(1-3)])
  also have "\<dots> = snd (authRequest_csr env c '''' (strings_Join (Identities c) '','') icr
      (map Call_Authenticate [0..<Suc (length fs)]))"
    using assms(4,5) by (simp add: authRequest_caller_result)
  also have "\<dots> = Inr (''spiffe://cluster/ns/default/sa/foo'', True)"
    using assms(4,6-11) by (simp add: authRequest_csr_result)
  finally show ?thesis .
qed

theorem authRequest_end_to_end_success_witness:
  "snd (authRequest ex_deps ex_server () ex_request) =
     Inr (''spiffe://cluster/ns/default/sa/foo'', True)"
  by (rule authRequest_end_to_end_success
        [where fs = "[\<lambda>_. Inl ''no token'']" and a = "\<lambda>_. Inr (Some ex_caller)"
           and rest = "[\<lambda>_. Inr (Some \<lparr>Identities = [''other''], KubernetesInfo = ()\<rparr>)]"
           and c = ex_caller
           and csr = "\<lparr>URIs = [foo], IPAddresses = [], EmailAddresses = [], Remainder = ()\<rparr>"])
     (simp_all add: ex_server_def ex_caller_def ex_deps_def ex_request_def ex_parse_def foo_def
        impersonated_def GetFields_def GetStringValue_def)

text \<open>
  C3. When the CSR of the request decodes to one with an IP name or an email name,
  \<^verbatim>\<open>authRequest\<close> never returns true, whatever the URI names, the signature and
  the caller are. It returns false provided that the authenticator at which the loop
  stops, if any, returned a caller and not a \<^verbatim>\<open>nil\<close> pointer together with the
  \<^verbatim>\<open>nil\<close> error; if it returned \<^verbatim>\<open>nil\<close>, the function panics at line 57 and
  returns nothing.
\<close>

theorem authRequest_forbidden_names:
  assumes "ParsePemEncodedCSR env (Csr icr) = Inr csr"
    and "IPAddresses csr \<noteq> [] \<or> EmailAddresses csr \<noteq> []"
  shows "(\<forall>identity. snd (authRequest env s ctx icr) \<noteq> Inr (identity, True)) \<and>
    ((\<forall>fs a rest. authenticators s = fs @ a # rest \<and> (\<forall>f\<in>set fs. isl (f ctx)) \<longrightarrow>
        a ctx \<noteq> Inr None) \<longrightarrow>
       (\<exists>identity. snd (authRequest env s ctx icr) = Inr (identity, False))) \<and>
    ((\<exists>fs a rest. authenticators s = fs @ a # rest \<and> (\<forall>f\<in>set fs. isl (f ctx)) \<and>
        a ctx = Inr None) \<longrightarrow>
       snd (authRequest env s ctx icr) = Inl NilDereference)"
proof -
  have csr: "\<And>c imp ids tr. snd (authRequest_csr env c imp ids icr tr) = Inr (ids, False)"
    using assms by (auto simp add: authRequest_csr_result)
  have real: "\<exists>identity. snd (authRequest_caller env s (Some c) icr tr) = Inr (identity, False)"
    for c tr
    by (simp add: authRequest_caller_result csr split: option.split)
  from authenticators_cases [of "authenticators s" ctx] show ?thesis
  proof (elim disjE exE conjE)
    assume fail: "\<forall>a\<in>set (authenticators s). isl (a ctx)"
    then have "snd (authRequest env s ctx icr) = Inr ('''', False)"
      by (simp add: authRequest_denied)
    with all_fail_no_stop [OF fail, of None] show ?thesis by simp
  next
    fix fs a rest c
    assume found: "authenticators s = fs @ a # rest" "\<forall>f\<in>set fs. isl (f ctx)" "a ctx = Inr c"
    have eq: "snd (authRequest env s ctx icr) =
        snd (authRequest_caller env s c icr (map Call_Authenticate [0..<Suc (length fs)]))"
      by (simp add: authRequest_found [OF found])
    show ?thesis
    proof (cases c)
      case None
      with eq have "snd (authRequest env s ctx icr) = Inl NilDereference"
        by (simp add: authRequest_caller_nil)
      moreover from found None
      have "\<not> (\<forall>fs a rest. authenticators s = fs @ a # rest \<and> (\<forall>f\<in>set fs. isl (f ctx)) \<longrightarrow>
          a ctx \<noteq> Inr None)"
        by blast
      ultimately show ?thesis by simp
    next
      case (Some c')
      with eq real [of c' "map Call_Authenticate [0..<Suc (length fs)]"]
      obtain identity where r: "snd (authRequest env s ctx icr) = Inr (identity, False)"
        by auto
      with no_nil_stop [OF found(1,2) found(3) [unfolded Some]] show ?thesis by simp
    qed
  qed
qed

theorem authRequest_forbidden_names_witness:
  "map (URL_String ex_deps) [foo] = Identities ex_caller \<and>
   (\<exists>identity. snd (authRequest ex_deps ex_server () ex_request_ip) = Inr (identity, False)) \<and>
   snd (authRequest ex_deps ex_nil_caller () ex_request_ip) = Inl NilDereference"
proof -
  note t = authRequest_forbidden_names
    [where env = ex_deps and icr = ex_request_ip and ctx = "()"
       and csr = "\<lparr>URIs = [foo], IPAddresses = [[127, 0, 0, 1]], EmailAddresses = [],
             Remainder = ()\<rparr>"]
  have p: "ParsePemEncodedCSR ex_deps (Csr ex_request_ip) =
      Inr \<lparr>URIs = [foo], IPAddresses = [[127, 0, 0, 1]], EmailAddresses = [], Remainder = ()\<rparr>"
    by (simp add: ex_deps_def ex_request_ip_def ex_parse_def)
  have i: "IPAddresses \<lparr>URIs = [foo], IPAddresses = [[127, 0, 0, 1]], EmailAddresses = [],
      Remainder = ()\<rparr> \<noteq> [] \<or>
    EmailAddresses \<lparr>URIs = [foo], IPAddresses = [[127, 0, 0, 1]], EmailAddresses = [],
      Remainder = ()\<rparr> \<noteq> []"
    by simp
  have nn: "\<forall>fs a rest. authenticators ex_server = fs @ a # rest \<and> (\<forall>f\<in>set fs. isl (f ())) \<longrightarrow>
      a () \<noteq> Inr None"
  proof (intro allI impI)
    fix fs a rest
    assume "authenticators ex_server = fs @ a # rest \<and> (\<forall>f\<in>set fs. isl (f ()))"
    then have "a \<in> set (authenticators ex_server)" by simp
    then show "a () \<noteq> Inr None"
      by (auto simp add: ex_server_def)
  qed
  have nil: "\<exists>fs a rest. authenticators ex_nil_caller = fs @ a # rest \<and>
      (\<forall>f\<in>set fs. isl (f ())) \<and> a () = Inr None"
  proof (intro exI conjI)
    show "authenticators ex_nil_caller = [] @ (\<lambda>_. Inr None) # []"
      by (simp add: ex_nil_caller_def)
    show "\<forall>f\<in>set ([] :: (unit \<Rightarrow> error + unit Caller option) list). isl (f ())"
      by simp
    show "(\<lambda>_::unit. (Inr None :: error + unit Caller option)) () = Inr None"
      by simp
  qed
  have one: "\<exists>identity. snd (authRequest ex_deps ex_server () ex_request_ip) = Inr (identity, False)"
    using t [of ex_server, OF p i, THEN conjunct2, THEN conjunct1] nn by (rule mp)
  have two: "snd (authRequest ex_deps ex_nil_caller () ex_request_ip) = Inl NilDereference"
    using t [of ex_nil_caller, OF p i, THEN conjunct2, THEN conjunct2] nil by (rule mp)
  have zero: "map (URL_String ex_deps) [foo] = Identities ex_caller"
    by (simp add: ex_deps_def ex_caller_def)
  from zero one two show ?thesis by (intro conjI)
qed

text \<open>
  C4. When the request carries a non-empty impersonated identity and no node
  authorizer is configured, \<^verbatim>\<open>authRequest\<close> returns the empty string and false,
  provided that the authenticator at which the loop stops, if any, returned a caller
  and not a \<^verbatim>\<open>nil\<close> pointer together with the \<^verbatim>\<open>nil\<close> error. If it returned
  \<^verbatim>\<open>nil\<close>, the function panics at line 57 and returns nothing; so whatever it
  returns is the empty string and false. In every case it does not call the CSR
  decoder, and its results and calls are the same for every other CSR in the request
  and every other decoder.
\<close>

theorem impersonation_not_configured:
  fixes env :: "('u, 'r) deps" and s :: "('c, 'k) Server"
  assumes "impersonated env icr \<noteq> ''''" and "nodeAuthorizer s = None"
  shows "(\<forall>identity authorized.
       snd (authRequest env s ctx icr) = Inr (identity, authorized) \<longrightarrow>
         identity = '''' \<and> \<not> authorized) \<and>
    ((\<forall>fs a rest. authenticators s = fs @ a # rest \<and> (\<forall>f\<in>set fs. isl (f ctx)) \<longrightarrow>
        a ctx \<noteq> Inr None) \<longrightarrow>
       snd (authRequest env s ctx icr) = Inr ('''', False)) \<and>
    ((\<exists>fs a rest. authenticators s = fs @ a # rest \<and> (\<forall>f\<in>set fs. isl (f ctx)) \<and>
        a ctx = Inr None) \<longrightarrow>
       snd (authRequest env s ctx icr) = Inl NilDereference) \<and>
    (\<forall>pem. Call_ParsePemEncodedCSR pem \<notin> set (fst (authRequest env s ctx icr))) \<and>
    (\<forall>pem parse. authRequest (env\<lparr>ParsePemEncodedCSR := parse\<rparr>) s ctx (icr\<lparr>Csr := pem\<rparr>) =
       authRequest env s ctx icr)"
proof -
  have other: "impersonated (env\<lparr>ParsePemEncodedCSR := parse\<rparr>) (icr\<lparr>Csr := pem\<rparr>) =
      impersonated env icr" for parse pem
    by (simp add: impersonated_def)
  from authenticators_cases [of "authenticators s" ctx] show ?thesis
  proof (elim disjE exE conjE)
    assume fail: "\<forall>a\<in>set (authenticators s). isl (a ctx)"
    note no = all_fail_no_stop [OF fail, of None]
    from fail have all: "authRequest env' s ctx icr' =
      (map Call_Authenticate [0..<length (authenticators s)] @
         [Log (Log_failed_to_authenticate
                 (errors_Join (map (\<lambda>a. projl (a ctx)) (authenticators s))))],
       Inr ('''', False))"
      for env' :: "('u, 'r) deps" and icr'
      by (rule authRequest_denied)
    show ?thesis
      unfolding all using no by auto
  next
    fix fs a rest c
    assume found: "authenticators s = fs @ a # rest" "\<forall>f\<in>set fs. isl (f ctx)" "a ctx = Inr c"
    have here: "authRequest env s ctx icr =
        authRequest_caller env s c icr (map Call_Authenticate [0..<Suc (length fs)])"
      by (rule authRequest_found [OF found])
    have there: "authRequest (env\<lparr>ParsePemEncodedCSR := parse\<rparr>) s ctx (icr\<lparr>Csr := pem\<rparr>) =
        authRequest_caller (env\<lparr>ParsePemEncodedCSR := parse\<rparr>) s c (icr\<lparr>Csr := pem\<rparr>)
          (map Call_Authenticate [0..<Suc (length fs)])" for parse pem
      by (rule authRequest_found [OF found])
    show ?thesis
    proof (cases c)
      case None
      from found None
      have "\<not> (\<forall>fs a rest. authenticators s = fs @ a # rest \<and> (\<forall>f\<in>set fs. isl (f ctx)) \<longrightarrow>
          a ctx \<noteq> Inr None)"
        by blast
      then show ?thesis
        unfolding here there None by (auto simp add: authRequest_caller_nil)
    next
      case (Some c')
      have nc: "authRequest_caller env' s (Some c') icr' tr =
          (if Identities c' = [] then (tr @ [Log Log_no_identity], Inr ('''', False))
           else (tr @ [Log (Log_impersonated_identity (impersonated env icr)),
                       Log Log_impersonation_not_allowed], Inr ('''', False)))"
        if "impersonated env' icr' = impersonated env icr"
        for env' :: "('u, 'r) deps" and icr' and tr :: "('k, 'u) call list"
        using authRequest_caller_not_configured [of env' icr' s c' tr] assms that by simp
      note unique = no_nil_stop [OF found(1,2) found(3) [unfolded Some]]
      show ?thesis
        unfolding here there Some using unique by (auto simp add: nc other)
    qed
  qed
qed

theorem impersonation_not_configured_witness:
  "snd (authRequest ex_deps ex_server () ex_impersonating) = Inr ('''', False) \<and>
   authRequest ex_deps ex_server () (ex_impersonating\<lparr>Csr := ''garbage''\<rparr>) =
     authRequest ex_deps ex_server () ex_impersonating"
proof -
  have i: "impersonated ex_deps ex_impersonating \<noteq> ''''"
    by (simp add: impersonated_def ex_deps_def ex_impersonating_def GetFields_def
        GetStringValue_def foo_def)
  have n: "nodeAuthorizer ex_server = None"
    by (simp add: ex_server_def)
  have e: "ex_deps\<lparr>ParsePemEncodedCSR := ParsePemEncodedCSR ex_deps\<rparr> = ex_deps"
    by simp
  have nn: "\<forall>fs a rest. authenticators ex_server = fs @ a # rest \<and> (\<forall>f\<in>set fs. isl (f ())) \<longrightarrow>
      a () \<noteq> Inr None"
  proof (intro allI impI)
    fix fs a rest
    assume "authenticators ex_server = fs @ a # rest \<and> (\<forall>f\<in>set fs. isl (f ()))"
    then have "a \<in> set (authenticators ex_server)" by simp
    then show "a () \<noteq> Inr None"
      by (auto simp add: ex_server_def)
  qed
  note t = impersonation_not_configured [OF i n, of "()"]
  have one: "snd (authRequest ex_deps ex_server () ex_impersonating) = Inr ('''', False)"
    using t [THEN conjunct2, THEN conjunct1] nn by (rule mp)
  have two: "authRequest (ex_deps\<lparr>ParsePemEncodedCSR := ParsePemEncodedCSR ex_deps\<rparr>) ex_server ()
      (ex_impersonating\<lparr>Csr := ''garbage''\<rparr>) = authRequest ex_deps ex_server () ex_impersonating"
    by (rule t [THEN conjunct2, THEN conjunct2, THEN conjunct2, THEN conjunct2,
          THEN spec, THEN spec])
  from one two show ?thesis
    unfolding e by (intro conjI)
qed

text \<open>
  C5. The authenticators are tried in the order of the list. When one succeeds after
  all before it have failed, the calls of \<^verbatim>\<open>authRequest\<close> begin with exactly the
  authenticators up to that one, no authenticator after it is ever called, the errors
  collected so far are not logged, and the function goes on with the caller that this
  authenticator returned. All authenticators fail if and only if the function tries
  every one of them, logs the join of their errors and returns the empty string and
  false.
\<close>

theorem authenticator_chain_first_success:
  fixes env :: "('u, 'r) deps" and s :: "('c, 'k) Server"
  shows
  "(\<forall>fs a rest c.
      authenticators s = fs @ a # rest \<and> (\<forall>f\<in>set fs. isl (f ctx)) \<and> a ctx = Inr c \<longrightarrow>
        authRequest env s ctx icr =
          authRequest_caller env s c icr (map Call_Authenticate [0..<Suc (length fs)]) \<and>
        take (Suc (length fs)) (fst (authRequest env s ctx icr)) =
          map Call_Authenticate [0..<Suc (length fs)] \<and>
        (\<forall>j. Call_Authenticate j \<in> set (fst (authRequest env s ctx icr)) \<longleftrightarrow> j \<le> length fs) \<and>
        (\<forall>e. Log (Log_failed_to_authenticate e) \<notin> set (fst (authRequest env s ctx icr)))) \<and>
   ((\<forall>a\<in>set (authenticators s). isl (a ctx)) \<longleftrightarrow>
      authRequest env s ctx icr =
        (map Call_Authenticate [0..<length (authenticators s)] @
           [Log (Log_failed_to_authenticate
                   (errors_Join (map (\<lambda>a. projl (a ctx)) (authenticators s))))],
         Inr ('''', False)))"
proof -
  have win: "authRequest env s ctx icr =
        authRequest_caller env s c icr (map Call_Authenticate [0..<Suc (length fs)]) \<and>
      take (Suc (length fs)) (fst (authRequest env s ctx icr)) =
        map Call_Authenticate [0..<Suc (length fs)] \<and>
      (\<forall>j. Call_Authenticate j \<in> set (fst (authRequest env s ctx icr)) \<longleftrightarrow> j \<le> length fs) \<and>
      (\<forall>e. Log (Log_failed_to_authenticate e) \<notin> set (fst (authRequest env s ctx icr)))"
    if found: "authenticators s = fs @ a # rest" "\<forall>f\<in>set fs. isl (f ctx)" "a ctx = Inr c"
    for fs a rest c
  proof -
    let ?tr = "map Call_Authenticate [0..<Suc (length fs)] :: ('k, 'u) call list"
    have eq: "authRequest env s ctx icr = authRequest_caller env s c icr ?tr"
      by (rule authRequest_found [OF found])
    obtain tr' where t: "fst (authRequest_caller env s c icr ?tr) = ?tr @ tr'"
      and a: "\<forall>i. Call_Authenticate i \<notin> set tr'"
      and l: "\<forall>e. Log (Log_failed_to_authenticate e) \<notin> set tr'"
      using authRequest_caller_trace [of env s c icr ?tr] by (elim exE conjE) auto
    have len: "length ?tr = Suc (length fs)" by simp
    have "take (Suc (length fs)) (?tr @ tr') = ?tr"
      using len by (metis append_eq_conv_conj)
    moreover have "Call_Authenticate j \<in> set (?tr @ tr') \<longleftrightarrow> j \<le> length fs" for j
      using a by (auto simp del: upt_Suc)
    moreover have "Log (Log_failed_to_authenticate e) \<notin> set (?tr @ tr')" for e
      using l by (auto simp del: upt_Suc)
    ultimately show ?thesis
      unfolding eq t using eq by blast
  qed
  have lose: "(\<forall>a\<in>set (authenticators s). isl (a ctx)) \<longleftrightarrow>
      authRequest env s ctx icr =
        (map Call_Authenticate [0..<length (authenticators s)] @
           [Log (Log_failed_to_authenticate
                   (errors_Join (map (\<lambda>a. projl (a ctx)) (authenticators s))))],
         Inr ('''', False))" (is "?fail \<longleftrightarrow> ?denied")
  proof
    assume ?fail
    then show ?denied by (rule authRequest_denied)
  next
    assume d: ?denied
    show ?fail
    proof (rule ccontr)
      assume "\<not> ?fail"
      with authenticators_cases [of "authenticators s" ctx]
      obtain fs a rest c where "authenticators s = fs @ a # rest"
        "\<forall>f\<in>set fs. isl (f ctx)" "a ctx = Inr c"
        by blast
      from win [OF this]
      have no: "\<forall>e. Log (Log_failed_to_authenticate e) \<notin> set (fst (authRequest env s ctx icr))"
        by blast
      have yes: "Log (Log_failed_to_authenticate
            (errors_Join (map (\<lambda>a. projl (a ctx)) (authenticators s))))
          \<in> set (fst (authRequest env s ctx icr))"
        by (simp add: d)
      from no [THEN spec] yes show False by (rule notE)
    qed
  qed
  from win lose show ?thesis by blast
qed

theorem authenticator_chain_first_success_witness:
  "authRequest ex_deps ex_server () ex_request =
     authRequest_caller ex_deps ex_server (Some ex_caller) ex_request
       [Call_Authenticate 0, Call_Authenticate 1] \<and>
   Call_Authenticate 2 \<notin> set (fst (authRequest ex_deps ex_server () ex_request)) \<and>
   snd (authRequest ex_deps ex_unauthenticated () ex_request) = Inr ('''', False)"
proof -
  have s: "authenticators ex_server = [\<lambda>_. Inl ''no token''] @ (\<lambda>_. Inr (Some ex_caller)) #
      [\<lambda>_. Inr (Some \<lparr>Identities = [''other''], KubernetesInfo = ()\<rparr>)] \<and>
      (\<forall>f\<in>set [\<lambda>_. Inl ''no token'']. isl (f ())) \<and> (\<lambda>_. Inr (Some ex_caller)) () = Inr (Some ex_caller)"
    by (simp add: ex_server_def)
  have u: "\<forall>a\<in>set (authenticators ex_unauthenticated). isl (a ())"
    by (simp add: ex_unauthenticated_def)
  note w = authenticator_chain_first_success
    [where s = ex_server and ctx = "()" and env = ex_deps and icr = ex_request,
      THEN conjunct1, rule_format, OF s]
  note d = authenticator_chain_first_success
    [where s = ex_unauthenticated and ctx = "()" and env = ex_deps and icr = ex_request,
      THEN conjunct2, THEN iffD1, OF u]
  have a: "authRequest ex_deps ex_server () ex_request =
     authRequest_caller ex_deps ex_server (Some ex_caller) ex_request
       [Call_Authenticate 0, Call_Authenticate 1]"
    using w [THEN conjunct1] by simp
  have b: "Call_Authenticate 2 \<notin> set (fst (authRequest ex_deps ex_server () ex_request))"
    using w [THEN conjunct2, THEN conjunct2, THEN conjunct1, THEN spec, of 2] by simp
  have c: "snd (authRequest ex_deps ex_unauthenticated () ex_request) = Inr ('''', False)"
    by (simp only: d snd_conv)
  from a b c show ?thesis by (intro conjI)
qed

text \<open>
  C6. Once authentication has returned a caller with at least one identity and the
  impersonation, if any, has been approved by the node authorizer, every way in which
  \<^verbatim>\<open>authRequest\<close> ends returns the resolved identity string: the identities of the
  caller joined by commas, or the impersonated identity. This holds whether the
  boolean is true or false; the boolean is true exactly when the CSR decodes, its
  signature verifies, it has no IP or email names, the extension validator accepts it
  and the identities match.
\<close>

theorem resolved_identity_returned:
  assumes "authenticators s = fs @ a # rest" and "\<forall>f\<in>set fs. isl (f ctx)"
    and "a ctx = Inr (Some c)"
    and "Identities c \<noteq> []"
    and "impersonated env icr = '''' \<or>
         (\<exists>authorizer. nodeAuthorizer s = Some authorizer \<and>
            authorizer (KubernetesInfo c) (impersonated env icr) = None)"
  shows "snd (authRequest env s ctx icr) =
    Inr (if impersonated env icr = '''' then strings_Join (Identities c) '',''
         else impersonated env icr,
         case ParsePemEncodedCSR env (Csr icr) of
           Inl err \<Rightarrow> False
         | Inr csr \<Rightarrow>
             CheckSignature env csr = None \<and> IPAddresses csr = [] \<and> EmailAddresses csr = [] \<and>
             ValidateCSRExtentions env csr = None \<and>
             mset (if impersonated env icr = '''' then Identities c
                   else [impersonated env icr]) =
               mset (map (URL_String env) (URIs csr)))"
proof -
  have "snd (authRequest env s ctx icr) =
      snd (authRequest_caller env s (Some c) icr (map Call_Authenticate [0..<Suc (length fs)]))"
    by (simp add: authRequest_found [OF assms(1-3)])
  then show ?thesis
    using assms(4,5) by (auto simp add: authRequest_caller_result authRequest_csr_result)
qed

theorem resolved_identity_returned_witness:
  "snd (authRequest ex_deps ex_server () ex_request_garbage) =
     Inr (''spiffe://cluster/ns/default/sa/foo'', False)"
proof -
  have "snd (authRequest ex_deps ex_server () ex_request_garbage) =
    Inr (if impersonated ex_deps ex_request_garbage = ''''
         then strings_Join (Identities ex_caller) '',''
         else impersonated ex_deps ex_request_garbage,
         case ParsePemEncodedCSR ex_deps (Csr ex_request_garbage) of
           Inl err \<Rightarrow> False
         | Inr csr \<Rightarrow>
             CheckSignature ex_deps csr = None \<and> IPAddresses csr = [] \<and>
             EmailAddresses csr = [] \<and> ValidateCSRExtentions ex_deps csr = None \<and>
             mset (if impersonated ex_deps ex_request_garbage = '''' then Identities ex_caller
                   else [impersonated ex_deps ex_request_garbage]) =
               mset (map (URL_String ex_deps) (URIs csr)))"
    by (rule resolved_identity_returned
          [where fs = "[\<lambda>_. Inl ''no token'']" and a = "\<lambda>_. Inr (Some ex_caller)"
             and rest = "[\<lambda>_. Inr (Some \<lparr>Identities = [''other''], KubernetesInfo = ()\<rparr>)]"])
       (simp_all add: ex_server_def ex_caller_def ex_deps_def ex_request_garbage_def
          impersonated_def GetFields_def GetStringValue_def)
  then show ?thesis
    by (simp add: ex_caller_def ex_deps_def ex_request_garbage_def ex_parse_def foo_def
        impersonated_def GetFields_def GetStringValue_def)
qed

text \<open>
  C7. When every configured authenticator fails, \<^verbatim>\<open>authRequest\<close> returns the empty
  string and false, and it does nothing but call the authenticators in order and log
  their joined errors: no later step is performed.
\<close>

theorem authentication_failed:
  assumes "\<forall>a\<in>set (authenticators s). isl (a ctx)"
  shows "authRequest env s ctx icr =
    (map Call_Authenticate [0..<length (authenticators s)] @
       [Log (Log_failed_to_authenticate
               (errors_Join (map (\<lambda>a. projl (a ctx)) (authenticators s))))],
     Inr ('''', False))"
  using assms by (rule authRequest_denied)

theorem authentication_failed_witness:
  "authRequest ex_deps ex_unauthenticated () ex_request =
     ([Call_Authenticate 0, Call_Authenticate 1,
       Log (Log_failed_to_authenticate (Some (''no token'' @ [CHR 0x0A] @ ''no certificate'')))],
      Inr ('''', False))"
proof -
  have "\<forall>a\<in>set (authenticators ex_unauthenticated). isl (a ())"
    by (simp add: ex_unauthenticated_def)
  from authentication_failed [OF this, of ex_deps ex_request] show ?thesis
    by (simp add: ex_unauthenticated_def errors_Join_def)
qed

text \<open>
  C8. When the request carries a non-empty impersonated identity and the configured
  node authorizer rejects it for the authenticated caller, \<^verbatim>\<open>authRequest\<close> returns
  the empty string (not the impersonated identity) and false.
\<close>

theorem impersonation_denied:
  assumes "authenticators s = fs @ a # rest" and "\<forall>f\<in>set fs. isl (f ctx)"
    and "a ctx = Inr (Some c)"
    and "impersonated env icr \<noteq> ''''"
    and "nodeAuthorizer s = Some authorizer"
    and "authorizer (KubernetesInfo c) (impersonated env icr) = Some err"
  shows "snd (authRequest env s ctx icr) = Inr ('''', False) \<and>
    (\<forall>authorized. snd (authRequest env s ctx icr) \<noteq> Inr (impersonated env icr, authorized))"
proof -
  have "snd (authRequest env s ctx icr) =
      snd (authRequest_caller env s (Some c) icr (map Call_Authenticate [0..<Suc (length fs)]))"
    by (simp add: authRequest_found [OF assms(1-3)])
  then show ?thesis
    using assms(4-6) by (auto simp add: authRequest_caller_result)
qed

theorem impersonation_denied_witness:
  "impersonated ex_deps ex_impersonating = ''spiffe://cluster/ns/default/sa/foo'' \<and>
   snd (authRequest ex_deps ex_denying () ex_impersonating) = Inr ('''', False)"
proof -
  have i: "impersonated ex_deps ex_impersonating = ''spiffe://cluster/ns/default/sa/foo''"
    by (simp add: impersonated_def ex_deps_def ex_impersonating_def GetFields_def
        GetStringValue_def foo_def)
  have "snd (authRequest ex_deps ex_denying () ex_impersonating) = Inr ('''', False) \<and>
    (\<forall>authorized. snd (authRequest ex_deps ex_denying () ex_impersonating) \<noteq>
       Inr (impersonated ex_deps ex_impersonating, authorized))"
    by (rule impersonation_denied
          [where fs = "[\<lambda>_. Inl ''no token'']" and a = "\<lambda>_. Inr (Some ex_caller)"
             and rest = "[\<lambda>_. Inr (Some \<lparr>Identities = [''other''], KubernetesInfo = ()\<rparr>)]"
             and c = ex_caller and authorizer = "\<lambda>k identity. Some ''not a trusted node''"
             and err = "''not a trusted node''"])
       (simp_all add: ex_denying_def ex_server_def i)
  with i show ?thesis by simp
qed

text \<open>
  C10. \<^verbatim>\<open>identitiesMatch\<close> of two empty lists is true. \<^verbatim>\<open>authRequest\<close> never
  calls it with an empty list of expected identities: a caller without identities is
  rejected before, with the empty string and false. The steps after that check, run
  for a caller without identities and a valid CSR without names, would return true.
\<close>

theorem matcher_never_reached_with_empty_expected:
  fixes env :: "('u, 'r) deps" and s :: "('c, 'k) Server"
  shows
  "identitiesMatch (URL_String env) [] [] = Inr True \<and>
   (\<forall>expected actual.
      Call_identitiesMatch expected actual \<in> set (fst (authRequest env s ctx icr)) \<longrightarrow>
        expected \<noteq> []) \<and>
   (\<forall>fs a rest c.
      authenticators s = fs @ a # rest \<and> (\<forall>f\<in>set fs. isl (f ctx)) \<and> a ctx = Inr (Some c) \<and>
      Identities c = [] \<longrightarrow>
        authRequest env s ctx icr =
          (map Call_Authenticate [0..<Suc (length fs)] @ [Log Log_no_identity],
           Inr ('''', False))) \<and>
   (\<forall>(c :: 'k Caller) csr ids (tr :: ('k, 'u) call list).
      Identities c = [] \<and> ParsePemEncodedCSR env (Csr icr) = Inr csr \<and>
      CheckSignature env csr = None \<and> IPAddresses csr = [] \<and> EmailAddresses csr = [] \<and>
      ValidateCSRExtentions env csr = None \<and> URIs csr = [] \<longrightarrow>
        snd (authRequest_csr env c '''' ids icr tr) = Inr (ids, True))"
proof (intro conjI allI impI)
  show "identitiesMatch (URL_String env) [] [] = Inr True"
    by (simp add: identitiesMatch_mset)
next
  fix expected actual
  assume m: "Call_identitiesMatch expected actual \<in> set (fst (authRequest env s ctx icr))"
  from authenticators_cases [of "authenticators s" ctx] show "expected \<noteq> []"
  proof (elim disjE exE conjE)
    assume "\<forall>a\<in>set (authenticators s). isl (a ctx)"
    then have "authRequest env s ctx icr =
      (map Call_Authenticate [0..<length (authenticators s)] @
         [Log (Log_failed_to_authenticate
                 (errors_Join (map (\<lambda>a. projl (a ctx)) (authenticators s))))],
       Inr ('''', False))"
      by (rule authRequest_denied)
    with m show ?thesis by auto
  next
    fix fs a rest c
    assume found: "authenticators s = fs @ a # rest" "\<forall>f\<in>set fs. isl (f ctx)" "a ctx = Inr c"
    let ?tr = "map Call_Authenticate [0..<Suc (length fs)] :: ('k, 'u) call list"
    have eq: "authRequest env s ctx icr = authRequest_caller env s c icr ?tr"
      by (rule authRequest_found [OF found])
    obtain tr' where t: "fst (authRequest_caller env s c icr ?tr) = ?tr @ tr'"
      and e: "\<forall>x y. Call_identitiesMatch x y \<in> set tr' \<longrightarrow> x \<noteq> []"
      using authRequest_caller_trace [of env s c icr ?tr] by (elim exE conjE) auto
    from m have "Call_identitiesMatch expected actual \<in> set tr'"
      unfolding eq t by (auto simp del: upt_Suc)
    with e show ?thesis by blast
  qed
next
  fix fs a rest c
  assume "authenticators s = fs @ a # rest \<and> (\<forall>f\<in>set fs. isl (f ctx)) \<and> a ctx = Inr (Some c) \<and>
    Identities c = []"
  then have found: "authenticators s = fs @ a # rest" "\<forall>f\<in>set fs. isl (f ctx)"
    "a ctx = Inr (Some c)"
    and none: "Identities c = []"
    by simp_all
  show "authRequest env s ctx icr =
      (map Call_Authenticate [0..<Suc (length fs)] @ [Log Log_no_identity], Inr ('''', False))"
    unfolding authRequest_found [OF found] using none
    by (simp add: authRequest_caller_def del: upt_Suc)
next
  fix c :: "'k Caller" and csr ids and tr :: "('k, 'u) call list"
  assume "Identities c = [] \<and> ParsePemEncodedCSR env (Csr icr) = Inr csr \<and>
      CheckSignature env csr = None \<and> IPAddresses csr = [] \<and> EmailAddresses csr = [] \<and>
      ValidateCSRExtentions env csr = None \<and> URIs csr = []"
  then show "snd (authRequest_csr env c '''' ids icr tr) = Inr (ids, True)"
    by (simp add: authRequest_csr_result)
qed

theorem matcher_never_reached_with_empty_expected_witness:
  "authRequest ex_deps ex_no_identity () ex_request_empty =
     ([Call_Authenticate 0, Log Log_no_identity], Inr ('''', False)) \<and>
   snd (authRequest_csr ex_deps \<lparr>Identities = [], KubernetesInfo = ()\<rparr> '''' ''''
          ex_request_empty []) = Inr ('''', True) \<and>
   Call_identitiesMatch [] [] \<notin> set (fst (authRequest ex_deps ex_server () ex_request))"
proof -
  note t = matcher_never_reached_with_empty_expected
    [where env = ex_deps and s = ex_no_identity and ctx = "()" and icr = ex_request_empty]
  have f: "authenticators ex_no_identity =
      [] @ (\<lambda>_. Inr (Some \<lparr>Identities = [], KubernetesInfo = ()\<rparr>)) # [] \<and>
      (\<forall>f\<in>set []. isl ((f :: unit \<Rightarrow> error + unit Caller option) ())) \<and>
      (\<lambda>_::unit. (Inr (Some \<lparr>Identities = [], KubernetesInfo = ()\<rparr>)
          :: error + unit Caller option)) () =
        Inr (Some \<lparr>Identities = [], KubernetesInfo = ()\<rparr>) \<and>
      Identities \<lparr>Identities = [], KubernetesInfo = ()\<rparr> = []"
    by (simp add: ex_no_identity_def)
  have p: "Identities \<lparr>Identities = [], KubernetesInfo = ()\<rparr> = [] \<and>
      ParsePemEncodedCSR ex_deps (Csr ex_request_empty) =
        Inr \<lparr>URIs = [], IPAddresses = [], EmailAddresses = [], Remainder = ()\<rparr> \<and>
      CheckSignature ex_deps
        \<lparr>URIs = [], IPAddresses = [], EmailAddresses = [], Remainder = ()\<rparr> = None \<and>
      IPAddresses \<lparr>URIs = [] :: string list, IPAddresses = [], EmailAddresses = [],
        Remainder = ()\<rparr> = [] \<and>
      EmailAddresses \<lparr>URIs = [] :: string list, IPAddresses = [], EmailAddresses = [],
        Remainder = ()\<rparr> = [] \<and>
      ValidateCSRExtentions ex_deps
        \<lparr>URIs = [], IPAddresses = [], EmailAddresses = [], Remainder = ()\<rparr> = None \<and>
      URIs \<lparr>URIs = [] :: string list, IPAddresses = [], EmailAddresses = [],
        Remainder = ()\<rparr> = []"
    by (simp add: ex_deps_def ex_request_empty_def ex_parse_def)
  have one: "authRequest ex_deps ex_no_identity () ex_request_empty =
      ([Call_Authenticate 0, Log Log_no_identity], Inr ('''', False))"
    using t [THEN conjunct2, THEN conjunct2, THEN conjunct1, rule_format, OF f] by simp
  have two: "snd (authRequest_csr ex_deps \<lparr>Identities = [], KubernetesInfo = ()\<rparr> '''' ''''
      ex_request_empty []) = Inr ('''', True)"
    by (rule t [THEN conjunct2, THEN conjunct2, THEN conjunct2, rule_format, OF p])
  have three: "Call_identitiesMatch [] [] \<notin> set (fst (authRequest ex_deps ex_server () ex_request))"
    using matcher_never_reached_with_empty_expected
      [where env = ex_deps and s = ex_server and ctx = "()" and icr = ex_request,
        THEN conjunct2, THEN conjunct1, THEN spec, THEN spec, of "[]" "[]"]
    by simp
  from one two three show ?thesis by (intro conjI)
qed

section \<open>The store is only extended\<close>

lemma take_store_at: "n \<le> Data x \<Longrightarrow> take n (store_at arrays x vs) = take n arrays"
  by (simp add: store_at_def)

lemma length_load: "valid arrays x \<Longrightarrow> length (load arrays x) = Len x"
  by (auto simp add: valid_def load_def)

lemma load_append: "valid arrays x \<Longrightarrow> load (arrays @ others) x = load arrays x"
  by (auto simp add: valid_def load_def nth_append)

lemma load_last:
  "length vs = n \<Longrightarrow> load (arrays @ [vs]) \<lparr>Data = length arrays, Off = 0, Len = n\<rparr> = vs"
  by (simp add: load_def)

lemma store_at_last:
  "length vs = length old \<Longrightarrow>
   store_at (arrays @ [old]) \<lparr>Data = length arrays, Off = 0, Len = n\<rparr> vs = arrays @ [vs]"
  by (simp add: store_at_def)

lemma load_frame:
  assumes "take (length arrays) arrays' = arrays" and "Data x < length arrays"
  shows "load arrays' x = load arrays x"
proof -
  have "arrays' ! Data x = take (length arrays) arrays' ! Data x"
    using assms(2) by simp
  then show ?thesis
    using assms(1) by (simp add: load_def)
qed

lemma identitiesMatch_store_extends:
  "take (length (string_arrays st))
     (string_arrays (snd (identitiesMatch_store String a b st))) = string_arrays st \<and>
   take (length (URL_arrays st))
     (URL_arrays (snd (identitiesMatch_store String a b st))) = URL_arrays st"
  by (simp add: identitiesMatch_store_def make_strings_def make_URLs_def copy_strings_def
      copy_URLs_def sort_Strings_store_def sort_SliceStable_store_def take_store_at Let_def
      split: sum.split)

section \<open>The store model computes identitiesMatch\<close>

lemma insertStable_panic_Some:
  "insertStable_panic (less_URL String) (Some x) (map Some ys) =
     Inr (map Some (insertStable (\<lambda>x y. String x < String y) x ys))"
  by (induction ys) (simp_all add: less_URL_def)

lemma sort_SliceStable_panic_Some:
  "sort_SliceStable_panic (less_URL String) (map Some us) =
     Inr (map Some (sort_SliceStable (\<lambda>x y. String x < String y) us))"
  by (induction us) (simp_all add: sort_SliceStable_def insertStable_panic_Some)

lemma range_aa_store_Some:
  "range_aa_store String (map Some bb) i aa = range_aa String bb i aa"
  by (induction aa arbitrary: i) simp_all

lemma identitiesMatch_store_result:
  assumes a: "valid (string_arrays st) a" and b: "valid (URL_arrays st) b"
    and us: "load (URL_arrays st) b = map Some us"
  shows "fst (identitiesMatch_store String a b st) =
    identitiesMatch String (load (string_arrays st) a) us"
proof (cases "Len a = Len b")
  case False
  moreover have "length (load (string_arrays st) a) = Len a"
    using a by (rule length_load)
  moreover have "length us = Len b"
    using length_load [OF b] us by simp
  ultimately show ?thesis
    by (simp add: identitiesMatch_store_def identitiesMatch_def)
next
  case True
  let ?as = "load (string_arrays st) a"
  let ?lt = "\<lambda>x y. String x < String y"
  have la: "length ?as = Len b"
    using length_load [OF a] True by simp
  have lu: "length (map Some us) = Len b"
    using length_load [OF b] us by simp
  have ls: "length (sort_Strings ?as) = length ?as"
    by (simp add: sort_Strings_sort)
  have lb: "length (map Some (sort_SliceStable ?lt us)) = length (map Some us)"
    by (simp add: sort_SliceStable_sort_key)
  show ?thesis
    using True la lu ls lb
    by (simp add: identitiesMatch_store_def identitiesMatch_def make_strings_def make_URLs_def
        copy_strings_def copy_URLs_def sort_Strings_store_def sort_SliceStable_store_def
        load_append [OF a] load_append [OF b] us store_at_last load_last
        sort_SliceStable_panic_Some range_aa_store_Some Let_def)
qed

lemma load_frame_valid:
  assumes "take (length arrays) arrays' = arrays" and "valid arrays x"
  shows "load arrays' x = load arrays x"
proof (cases "Len x = 0")
  case True
  then show ?thesis by (simp add: load_def)
next
  case False
  with assms(2) have "Data x < length arrays"
    by (simp add: valid_def)
  with assms(1) show ?thesis by (rule load_frame)
qed

lemma map_Some_the: "None \<notin> set cells \<Longrightarrow> map Some (map the cells) = cells"
  by (induction cells) auto

text \<open>
  C9. \<^verbatim>\<open>identitiesMatch\<close> does not change its inputs. In the store it leaves
  behind, every array that existed before the call is as it was, so every slice that
  was valid before the call, the two arguments among them, holds the same elements
  in the same order; the function writes only into the two arrays it allocates. On
  valid arguments without \<^verbatim>\<open>nil\<close> pointers its result is the one of the function on
  the lists of elements.
\<close>

theorem identitiesMatch_leaves_inputs:
  "take (length (string_arrays st))
     (string_arrays (snd (identitiesMatch_store String a b st))) = string_arrays st \<and>
   take (length (URL_arrays st))
     (URL_arrays (snd (identitiesMatch_store String a b st))) = URL_arrays st \<and>
   (\<forall>x. valid (string_arrays st) x \<longrightarrow>
      load (string_arrays (snd (identitiesMatch_store String a b st))) x =
        load (string_arrays st) x) \<and>
   (\<forall>x. valid (URL_arrays st) x \<longrightarrow>
      load (URL_arrays (snd (identitiesMatch_store String a b st))) x =
        load (URL_arrays st) x) \<and>
   (valid (string_arrays st) a \<and> valid (URL_arrays st) b \<and>
    None \<notin> set (load (URL_arrays st) b) \<longrightarrow>
      fst (identitiesMatch_store String a b st) =
        identitiesMatch String (load (string_arrays st) a) (map the (load (URL_arrays st) b)))"
proof (intro conjI allI impI)
  show s: "take (length (string_arrays st))
     (string_arrays (snd (identitiesMatch_store String a b st))) = string_arrays st"
    using identitiesMatch_store_extends [of st String a b] by (rule conjunct1)
  show u: "take (length (URL_arrays st))
     (URL_arrays (snd (identitiesMatch_store String a b st))) = URL_arrays st"
    using identitiesMatch_store_extends [of st String a b] by (rule conjunct2)
  show "load (string_arrays (snd (identitiesMatch_store String a b st))) x =
      load (string_arrays st) x" if "valid (string_arrays st) x" for x
    using s that by (rule load_frame_valid)
  show "load (URL_arrays (snd (identitiesMatch_store String a b st))) x =
      load (URL_arrays st) x" if "valid (URL_arrays st) x" for x
    using u that by (rule load_frame_valid)
  show "fst (identitiesMatch_store String a b st) =
      identitiesMatch String (load (string_arrays st) a) (map the (load (URL_arrays st) b))"
    if "valid (string_arrays st) a \<and> valid (URL_arrays st) b \<and>
      None \<notin> set (load (URL_arrays st) b)"
  proof -
    from that have "None \<notin> set (load (URL_arrays st) b)"
      by (elim conjE)
    then have "load (URL_arrays st) b = map Some (map the (load (URL_arrays st) b))"
      by (rule map_Some_the [symmetric])
    with that show ?thesis
      by (intro identitiesMatch_store_result) simp_all
  qed
qed

theorem identitiesMatch_leaves_inputs_witness:
  "load (string_arrays ex_store) ex_a = [''b'', ''a''] \<and>
   load (string_arrays (snd (identitiesMatch_store (\<lambda>u. u) ex_a ex_b ex_store))) ex_a =
     [''b'', ''a''] \<and>
   load (URL_arrays (snd (identitiesMatch_store (\<lambda>u. u) ex_a ex_b ex_store))) ex_b =
     [Some ''a'', Some ''b''] \<and>
   fst (identitiesMatch_store (\<lambda>u. u) ex_a ex_b ex_store) = Inr True"
proof -
  note t = identitiesMatch_leaves_inputs [of ex_store "\<lambda>u. u" ex_a ex_b]
  have va: "valid (string_arrays ex_store) ex_a"
    by (simp add: valid_def ex_store_def ex_a_def)
  have vb: "valid (URL_arrays ex_store) ex_b"
    by (simp add: valid_def ex_store_def ex_b_def)
  have la: "load (string_arrays ex_store) ex_a = [''b'', ''a'']"
    by (simp add: load_def ex_store_def ex_a_def)
  have lb: "load (URL_arrays ex_store) ex_b = [Some ''a'', Some ''b'']"
    by (simp add: load_def ex_store_def ex_b_def)
  have nn: "None \<notin> set (load (URL_arrays ex_store) ex_b)"
    by (simp add: lb)
  have m: "identitiesMatch (\<lambda>u. u) [''b'', ''a''] [''a'', ''b''] = (Inr True :: panic + bool)"
    by (simp add: identitiesMatch_def sort_Strings_def sort_SliceStable_def)
  have one: "load (string_arrays (snd (identitiesMatch_store (\<lambda>u. u) ex_a ex_b ex_store))) ex_a =
      [''b'', ''a'']"
    using t [THEN conjunct2, THEN conjunct2, THEN conjunct1, rule_format, OF va] la by simp
  have two: "load (URL_arrays (snd (identitiesMatch_store (\<lambda>u. u) ex_a ex_b ex_store))) ex_b =
      [Some ''a'', Some ''b'']"
    using t [THEN conjunct2, THEN conjunct2, THEN conjunct2, THEN conjunct1, rule_format, OF vb]
      lb by simp
  have three: "fst (identitiesMatch_store (\<lambda>u. u) ex_a ex_b ex_store) = Inr True"
    using t [THEN conjunct2, THEN conjunct2, THEN conjunct2, THEN conjunct2, rule_format,
        OF conjI [OF va conjI [OF vb nn]]]
    by (simp add: la lb m)
  from la one two three show ?thesis by (intro conjI)
qed

end
